theory Spec2Isabelle
  imports Complex_Main "HOL-Library.Multiset" "HOL-Library.Code_Target_Nat"
begin

section \<open>Characters and strings\<close>

text \<open>
  Keys and labels are JavaScript strings.  They are modelled as HOL strings, one
  \<^typ>\<open>char\<close> per code unit, so the model has the code units below 256.  The classes
  \<open>[A-Z]\<close> and \<open>\d\<close> of the regular expressions are ASCII classes; the white space of
  \<open>\s\<close> and \<open>trim\<close> and the case conversions are those of Unicode, taken on the code
  units below 256.
\<close>

text \<open>The class \<open>[A-Z]\<close>, the ASCII lowercase letters, and the class \<open>\d\<close>.\<close>

definition is_upper :: "char \<Rightarrow> bool" where
  "is_upper c = (65 \<le> (of_char c :: nat) \<and> (of_char c :: nat) \<le> 90)"

definition is_lower :: "char \<Rightarrow> bool" where
  "is_lower c = (97 \<le> (of_char c :: nat) \<and> (of_char c :: nat) \<le> 122)"

definition is_digit :: "char \<Rightarrow> bool" where
  "is_digit c = (48 \<le> (of_char c :: nat) \<and> (of_char c :: nat) \<le> 57)"

definition is_ascii :: "char \<Rightarrow> bool" where
  "is_ascii c = ((of_char c :: nat) < 128)"

text \<open>The uppercase letters beyond ASCII, U+00C0 to U+00DE without the multiplication
  sign U+00D7, and the lowercase letters U+00E0 to U+00FE without the division sign
  U+00F7, which are 32 above them.\<close>

definition is_latin_upper :: "char \<Rightarrow> bool" where
  "is_latin_upper c =
     ((192 \<le> (of_char c :: nat) \<and> (of_char c :: nat) \<le> 214)
      \<or> (216 \<le> (of_char c :: nat) \<and> (of_char c :: nat) \<le> 222))"

definition is_latin_lower :: "char \<Rightarrow> bool" where
  "is_latin_lower c =
     ((224 \<le> (of_char c :: nat) \<and> (of_char c :: nat) \<le> 246)
      \<or> (248 \<le> (of_char c :: nat) \<and> (of_char c :: nat) \<le> 254))"

text \<open>An uppercase letter, in ASCII or beyond.\<close>

definition is_uppercase_letter :: "char \<Rightarrow> bool" where
  "is_uppercase_letter c = (is_upper c \<or> is_latin_upper c)"

text \<open>The class \<open>\s\<close>, which is also what \<open>trim\<close> strips: tab, line feed, vertical
  tab, form feed, carriage return, space and the no-break space U+00A0.\<close>

definition is_space :: "char \<Rightarrow> bool" where
  "is_space c =
     ((9 \<le> (of_char c :: nat) \<and> (of_char c :: nat) \<le> 13) \<or> (of_char c :: nat) = 32
      \<or> (of_char c :: nat) = 160)"

text \<open>The characters that \<open>.\<close> does not match.\<close>

definition is_line_terminator :: "char \<Rightarrow> bool" where
  "is_line_terminator c = ((of_char c :: nat) = 10 \<or> (of_char c :: nat) = 13)"

text \<open>\<open>toLowerCase\<close> and \<open>toUpperCase\<close> on one character.  The sharp s U+00DF
  becomes \<open>SS\<close> in upper case.  The upper-case forms of the micro sign U+00B5 and of
  U+00FF are code units above 255, which the model does not have: it leaves these two
  characters as they are, and so differs from the code on a label that starts with one of
  them.\<close>

definition to_lower :: "char \<Rightarrow> char" where
  "to_lower c =
     (if is_upper c \<or> is_latin_upper c then char_of ((of_char c :: nat) + 32) else c)"

definition to_upper :: "char \<Rightarrow> char" where
  "to_upper c =
     (if is_lower c \<or> is_latin_lower c then char_of ((of_char c :: nat) - 32) else c)"

definition upper_case :: "char \<Rightarrow> string" where
  "upper_case c = (if (of_char c :: nat) = 223 then ''SS'' else [to_upper c])"

text \<open>Decimal numerals: the keys of an array's elements, and the fields of a duration.\<close>

definition digit_char :: "nat \<Rightarrow> char" where
  "digit_char d = char_of (48 + d)"

function show_nat :: "nat \<Rightarrow> string" where
  "show_nat n = (if n < 10 then [digit_char n] else show_nat (n div 10) @ [digit_char (n mod 10)])"
  by pat_completeness auto
termination
  by (relation "measure id") auto

declare show_nat.simps [simp del]

definition digit_val :: "char \<Rightarrow> nat" where
  "digit_val c = (of_char c :: nat) - 48"

definition nat_of_digits :: "string \<Rightarrow> nat" where
  "nat_of_digits s = foldl (\<lambda>acc c. 10 * acc + digit_val c) 0 s"


section \<open>generateLabel\<close>

text \<open>\<open>.replace(/([A-Z])/g, " $1")\<close>: the scan replaces every capital by a space and
  the capital.\<close>

fun replace_capitals :: "string \<Rightarrow> string" where
  "replace_capitals [] = []"
| "replace_capitals (c # cs) =
     (if is_upper c then CHR '' '' # c # replace_capitals cs
      else c # replace_capitals cs)"

text \<open>\<open>.replace(/(\d+)/g, " $1")\<close>: at a digit the greedy match takes the whole run of
  digits, the replacement is a space and the run, and the scan goes on behind the run.\<close>

function replace_numbers :: "string \<Rightarrow> string" where
  "replace_numbers [] = []"
| "replace_numbers (c # cs) =
     (if is_digit c
      then CHR '' '' # c # takeWhile is_digit cs @ replace_numbers (dropWhile is_digit cs)
      else c # replace_numbers cs)"
  by pat_completeness auto
termination
  by (relation "measure length") (auto simp: length_dropWhile_le less_Suc_eq_le)

definition toLowerCase :: "string \<Rightarrow> string" where
  "toLowerCase s = map to_lower s"

definition trim :: "string \<Rightarrow> string" where
  "trim s = rev (dropWhile is_space (rev (dropWhile is_space s)))"

text \<open>The right half of \<open>trim\<close>.\<close>

definition rtrim :: "string \<Rightarrow> string" where
  "rtrim s = rev (dropWhile is_space (rev s))"

text \<open>\<open>.replace(/\s+/g, " ")\<close>: a run of white space is replaced by one space.\<close>

function replace_spaces :: "string \<Rightarrow> string" where
  "replace_spaces [] = []"
| "replace_spaces (c # cs) =
     (if is_space c then CHR '' '' # replace_spaces (dropWhile is_space cs)
      else c # replace_spaces cs)"
  by pat_completeness auto
termination
  by (relation "measure length") (auto simp: length_dropWhile_le less_Suc_eq_le)

text \<open>\<open>.replace(/^./, (s) => s.toUpperCase())\<close>: only the first character can match,
  and it matches unless the string is empty or starts with a line terminator.\<close>

fun replace_first :: "string \<Rightarrow> string" where
  "replace_first [] = []"
| "replace_first (c # cs) = (if is_line_terminator c then c # cs else upper_case c @ cs)"

definition generateLabel :: "string \<Rightarrow> string" where
  "generateLabel fnName =
     replace_first (replace_spaces (trim (toLowerCase (replace_numbers (replace_capitals fnName)))))"


subsection \<open>The five steps of the label, as the specification words them\<close>

text \<open>A space before every uppercase letter, whether in ASCII or beyond.\<close>

definition spec_space_capitals :: "string \<Rightarrow> string" where
  "spec_space_capitals s =
     concat (map (\<lambda>c. if is_uppercase_letter c then [CHR '' '', c] else [c]) s)"

text \<open>A space before every run of digits: before each digit that does not follow a digit.\<close>

fun space_runs :: "bool \<Rightarrow> string \<Rightarrow> string" where
  "space_runs prev [] = []"
| "space_runs prev (c # cs) =
     (if is_digit c \<and> \<not> prev then CHR '' '' # c # space_runs True cs
      else c # space_runs (is_digit c) cs)"

text \<open>Trimming and collapsing white space leaves the words of the string, the maximal
  runs of characters that are not white space, with one space between neighbours.\<close>

function words :: "string \<Rightarrow> string list" where
  "words [] = []"
| "words (c # cs) =
     (if is_space c then words cs
      else (c # takeWhile (\<lambda>x. \<not> is_space x) cs) # words (dropWhile (\<lambda>x. \<not> is_space x) cs))"
  by pat_completeness auto
termination
  by (relation "measure length") (auto simp: length_dropWhile_le less_Suc_eq_le)

fun unwords :: "string list \<Rightarrow> string" where
  "unwords [] = []"
| "unwords [w] = w"
| "unwords (w # ws) = w @ CHR '' '' # unwords ws"

fun capitalize_first :: "string \<Rightarrow> string" where
  "capitalize_first [] = []"
| "capitalize_first (c # cs) = upper_case c @ cs"

definition spec_generateLabel :: "string \<Rightarrow> string" where
  "spec_generateLabel s =
     capitalize_first (unwords (words (map to_lower (space_runs False (spec_space_capitals s)))))"


section \<open>Values\<close>

text \<open>
  What a step declaration can hold at run time.  A callable is identified by a number;
  an array is the list of its elements; any other object is the list of its own
  enumerable string-keyed properties, in the order of their creation, with distinct keys.
\<close>

datatype js_number = Finite rat | PosInfinity | NegInfinity | NaN

datatype js_value =
    JUndefined
  | JNull
  | JBool bool
  | JNumber js_number
  | JString string
  | JFunction nat
  | JArray "js_value list"
  | JObject "(string \<times> js_value) list"

fun js_typeof :: "js_value \<Rightarrow> string" where
  "js_typeof JUndefined = ''undefined''"
| "js_typeof JNull = ''object''"
| "js_typeof (JBool b) = ''boolean''"
| "js_typeof (JNumber n) = ''number''"
| "js_typeof (JString s) = ''string''"
| "js_typeof (JFunction f) = ''function''"
| "js_typeof (JArray xs) = ''object''"
| "js_typeof (JObject ps) = ''object''"

fun Array_isArray :: "js_value \<Rightarrow> bool" where
  "Array_isArray (JArray xs) = True"
| "Array_isArray v = False"

fun array_length :: "js_value \<Rightarrow> nat" where
  "array_length (JArray xs) = length xs"
| "array_length v = 0"

text \<open>Reading an element; an index out of range reads \<open>undefined\<close>.\<close>

fun array_get :: "js_value \<Rightarrow> nat \<Rightarrow> js_value" where
  "array_get (JArray xs) i = (if i < length xs then xs ! i else JUndefined)"
| "array_get v i = JUndefined"

text \<open>Truthiness, as \<open>if (node.work)\<close> tests it.\<close>

fun truthy :: "js_value \<Rightarrow> bool" where
  "truthy JUndefined = False"
| "truthy JNull = False"
| "truthy (JBool b) = b"
| "truthy (JNumber (Finite r)) = (r \<noteq> 0)"
| "truthy (JNumber NaN) = False"
| "truthy (JNumber n) = True"
| "truthy (JString s) = (s \<noteq> [])"
| "truthy v = True"

subsection \<open>Object.entries\<close>

text \<open>
  An array index is the canonical decimal numeral of an integer below \<open>2^32 - 1\<close>.
  \<open>Object.entries\<close> lists the properties whose keys are array indices first, in
  ascending numeric order, and then the other properties in the order of their creation.
\<close>

definition is_array_index :: "string \<Rightarrow> bool" where
  "is_array_index s =
     (s \<noteq> [] \<and> list_all is_digit s \<and> (if hd s = CHR ''0'' then s = ''0'' else True)
      \<and> nat_of_digits s < 4294967295)"

definition Object_entries :: "(string \<times> js_value) list \<Rightarrow> (string \<times> js_value) list" where
  "Object_entries props =
     sort_key (\<lambda>p. nat_of_digits (fst p)) (filter (\<lambda>p. is_array_index (fst p)) props)
     @ filter (\<lambda>p. \<not> is_array_index (fst p)) props"

text \<open>The own enumerable properties of a value that is an object: those of an array are
  its elements under their indices.\<close>

fun own_properties :: "js_value \<Rightarrow> (string \<times> js_value) list" where
  "own_properties (JObject ps) = ps"
| "own_properties (JArray xs) = zip (map show_nat [0..<length xs]) xs"
| "own_properties v = []"


section \<open>Step nodes\<close>

text \<open>The interface \<open>StepNode\<close>; an optional attribute that the object literal does not
  set is \<open>None\<close>.\<close>

datatype StepNode =
  StepNode (label: js_value) (key: string) (work: "js_value option")
           (children: "StepNode list option") (indent: int)

text \<open>The measure of the recursion of the parser: every property counts one more than
  its value, every value one more than its properties.\<close>

primrec weight :: "js_value \<Rightarrow> nat" where
  "weight JUndefined = 0"
| "weight JNull = 0"
| "weight (JBool b) = 0"
| "weight (JNumber n) = 0"
| "weight (JString s) = 0"
| "weight (JFunction f) = 0"
| "weight (JArray xs) = Suc (sum_list (map Suc (map weight xs)))"
| "weight (JObject ps) = Suc (sum_list (map (\<lambda>p. Suc (snd p)) (map (map_prod id weight) ps)))"

definition entries_weight :: "(string \<times> js_value) list \<Rightarrow> nat" where
  "entries_weight es = sum_list (map (\<lambda>p. Suc (weight (snd p))) es)"


section \<open>parseStepsDef\<close>

text \<open>
  The definition \<open>def\<close> is an object; it is given by its own properties.  The loop
  over \<open>Object.entries(def)\<close> pushes at most one node per entry onto \<open>nodes\<close>; the
  third branch calls the parser on the value itself, one level deeper.
\<close>

function parseStepsDef :: "(string \<times> js_value) list \<Rightarrow> int \<Rightarrow> StepNode list"
  and parse_loop :: "StepNode list \<Rightarrow> (string \<times> js_value) list \<Rightarrow> int \<Rightarrow> StepNode list"
where
  "parseStepsDef def ind = parse_loop [] (Object_entries def) ind"
| "parse_loop nodes [] ind = nodes"
| "parse_loop nodes ((k, v) # rest) ind =
     (if js_typeof v = ''function'' then
        parse_loop (nodes @ [StepNode (JString (generateLabel k)) k (Some v) None ind]) rest ind
      else if Array_isArray v \<and> array_length v = 2 then
        parse_loop (nodes @ [StepNode (array_get v 0) k (Some (array_get v 1)) None ind]) rest ind
      else if js_typeof v = ''object'' \<and> v \<noteq> JNull then
        parse_loop
          (nodes @ [StepNode (JString (generateLabel k)) k None
                      (Some (parseStepsDef (own_properties v) (ind + 1))) ind])
          rest ind
      else parse_loop nodes rest ind)"
  by pat_completeness auto
termination
proof -
  have oe: "entries_weight (Object_entries ps) = entries_weight ps" for ps
  proof -
    have "mset (Object_entries ps) = mset ps"
      by (simp add: Object_entries_def)
    then have "mset (map (\<lambda>p. Suc (weight (snd p))) (Object_entries ps))
        = mset (map (\<lambda>p. Suc (weight (snd p))) ps)"
      by simp
    then show ?thesis
      unfolding entries_weight_def by (metis sum_mset_sum_list)
  qed
  have op: "entries_weight (own_properties v) < weight v"
    if "js_typeof v = ''object''" and "v \<noteq> JNull" for v
  proof (cases v)
    case (JArray xs)
    have "map snd (zip (map show_nat [0..<length xs]) xs) = xs"
      by (rule map_snd_zip) simp
    then have "map (\<lambda>p. Suc (weight (snd p))) (zip (map show_nat [0..<length xs]) xs)
        = map (\<lambda>x. Suc (weight x)) xs"
      by (metis (no_types, lifting) map_map o_def map_eq_conv)
    then show ?thesis
      using JArray by (simp add: entries_weight_def o_def)
  next
    case (JObject ps)
    then show ?thesis
      by (simp add: entries_weight_def o_def)
  qed (use that in simp_all)
  show ?thesis
    by (relation "measure (\<lambda>x. case x of
            Inl (def, ind) \<Rightarrow> 2 * entries_weight def + 1
          | Inr (nodes, es, ind) \<Rightarrow> 2 * entries_weight es)")
       (auto simp: oe [unfolded entries_weight_def] entries_weight_def dest: op)
qed

declare parseStepsDef.simps [simp del]


section \<open>flattenStepNodes and getLeafNodes\<close>

text \<open>Both loops push onto \<open>result\<close>; the recursive call on the children starts from
  an empty list of its own and its result is spread onto \<open>result\<close>.  An array,
  even an empty one, is truthy, so \<open>if (node.children)\<close> asks whether the attribute
  is set.\<close>

function flatten_loop :: "StepNode list \<Rightarrow> StepNode list \<Rightarrow> StepNode list" where
  "flatten_loop result [] = result"
| "flatten_loop result (node # rest) =
     (let result1 = result @ [node];
          result2 = (case children node of
                       Some cs \<Rightarrow> result1 @ flatten_loop [] cs
                     | None \<Rightarrow> result1)
      in flatten_loop result2 rest)"
  by pat_completeness auto
termination
proof (relation "measure (\<lambda>(result, nodes). size_list size nodes)")
  fix result :: "StepNode list" and node rest and result1 :: "StepNode list" and cs
  assume "children node = Some cs"
  then show "(([], cs), (result, node # rest)) \<in> measure (\<lambda>(result, nodes). size_list size nodes)"
    by (cases node) simp
qed simp_all

definition flattenStepNodes :: "StepNode list \<Rightarrow> StepNode list" where
  "flattenStepNodes nodes = flatten_loop [] nodes"

definition work_truthy :: "StepNode \<Rightarrow> bool" where
  "work_truthy node = (case work node of None \<Rightarrow> False | Some w \<Rightarrow> truthy w)"

function leaf_loop :: "StepNode list \<Rightarrow> StepNode list \<Rightarrow> StepNode list" where
  "leaf_loop result [] = result"
| "leaf_loop result (node # rest) =
     (let result1 = (if work_truthy node then result @ [node] else result);
          result2 = (case children node of
                       Some cs \<Rightarrow> result1 @ leaf_loop [] cs
                     | None \<Rightarrow> result1)
      in leaf_loop result2 rest)"
  by pat_completeness auto
termination
proof (relation "measure (\<lambda>(result, nodes). size_list size nodes)")
  fix result :: "StepNode list" and node rest and result1 :: "StepNode list" and cs
  assume "children node = Some cs"
  then show "(([], cs), (result, node # rest)) \<in> measure (\<lambda>(result, nodes). size_list size nodes)"
    by (cases node) simp
qed simp_all

definition getLeafNodes :: "StepNode list \<Rightarrow> StepNode list" where
  "getLeafNodes nodes = leaf_loop [] nodes"


section \<open>isStepsDef and isLabelTuple\<close>

definition isStepsDef :: "js_value \<Rightarrow> bool" where
  "isStepsDef v =
     (js_typeof v = ''object'' \<and> v \<noteq> JNull \<and> \<not> Array_isArray v \<and> js_typeof v \<noteq> ''function'')"

definition isLabelTuple :: "js_value \<Rightarrow> bool" where
  "isLabelTuple v =
     (Array_isArray v \<and> array_length v = 2 \<and> js_typeof (array_get v 0) = ''string''
      \<and> js_typeof (array_get v 1) = ''function'')"


section \<open>The specification of the step tree\<close>

text \<open>The type \<open>StepValue\<close>: a function, a pair of a string and a function, or a
  nested definition whose values are step values again.\<close>

fun is_StepValue :: "js_value \<Rightarrow> bool" where
  "is_StepValue (JFunction f) = True"
| "is_StepValue (JArray xs) = isLabelTuple (JArray xs)"
| "is_StepValue (JObject ps) = list_all (\<lambda>p. is_StepValue (snd p)) ps"
| "is_StepValue v = False"

definition is_StepsDef :: "(string \<times> js_value) list \<Rightarrow> bool" where
  "is_StepsDef def = list_all (\<lambda>p. is_StepValue (snd p)) def"

text \<open>The values without properties of their own: everything but functions, arrays and
  objects.\<close>

fun is_primitive :: "js_value \<Rightarrow> bool" where
  "is_primitive (JFunction f) = False"
| "is_primitive (JArray xs) = False"
| "is_primitive (JObject ps) = False"
| "is_primitive v = True"

text \<open>The nodes that one entry contributes, shape by shape.\<close>

fun entry_nodes :: "int \<Rightarrow> string \<Rightarrow> js_value \<Rightarrow> StepNode list" where
  "entry_nodes ind k (JFunction f) =
     [StepNode (JString (generateLabel k)) k (Some (JFunction f)) None ind]"
| "entry_nodes ind k (JArray [l, w]) = [StepNode l k (Some w) None ind]"
| "entry_nodes ind k (JArray xs) =
     [StepNode (JString (generateLabel k)) k None
        (Some (parseStepsDef (zip (map show_nat [0..<length xs]) xs) (ind + 1))) ind]"
| "entry_nodes ind k (JObject ps) =
     [StepNode (JString (generateLabel k)) k None (Some (parseStepsDef ps (ind + 1))) ind]"
| "entry_nodes ind k v = []"

text \<open>An attribute is populated when it is set to something other than \<open>undefined\<close>.\<close>

definition work_populated :: "StepNode \<Rightarrow> bool" where
  "work_populated node = (case work node of None \<Rightarrow> False | Some w \<Rightarrow> w \<noteq> JUndefined)"

definition children_populated :: "StepNode \<Rightarrow> bool" where
  "children_populated node = (case children node of None \<Rightarrow> False | Some cs \<Rightarrow> True)"

definition exactly_one :: "StepNode \<Rightarrow> bool" where
  "exactly_one node = (work_populated node \<noteq> children_populated node)"

text \<open>A property of a node and of every node below it.\<close>

fun all_nodes :: "(StepNode \<Rightarrow> bool) \<Rightarrow> StepNode \<Rightarrow> bool" where
  "all_nodes P (StepNode l k w cs i) =
     (P (StepNode l k w cs i) \<and> (case cs of None \<Rightarrow> True | Some ns \<Rightarrow> list_all (all_nodes P) ns))"

text \<open>The type of the attribute \<open>work\<close>: where it is set, it is a function.\<close>

definition work_callable :: "StepNode \<Rightarrow> bool" where
  "work_callable node =
     (case work node of None \<Rightarrow> True | Some w \<Rightarrow> w = JUndefined \<or> js_typeof w = ''function'')"

text \<open>Depth-first pre-order: a node, then the pre-order of each of its children in turn.\<close>

fun preorder :: "StepNode \<Rightarrow> StepNode list" where
  "preorder (StepNode l k w cs i) =
     StepNode l k w cs i # (case cs of None \<Rightarrow> [] | Some ns \<Rightarrow> concat (map preorder ns))"


section \<open>The ETA formatter and tracker\<close>

text \<open>
  Modelled from the spec: the module \<open>src/utils/eta.ts\<close> (\<open>formatETA\<close>,
  \<open>createETATracker\<close>, \<open>DEFAULT_ETA_BUFFER_SIZE\<close>) is not among the sources; only
  its re-export and its tests are.  Numbers are exact rationals, with the two infinities
  and not-a-number beside them.
\<close>

record ETASample =
  time :: rat
  "value" :: rat

text \<open>Modelled from the spec: the fields of the result of \<open>formatETA\<close> of the
  missing \<open>src/utils/eta.ts\<close>.  A field of two digits is padded with a zero.\<close>

definition pad2 :: "nat \<Rightarrow> string" where
  "pad2 n = (if n < 10 then CHR ''0'' # show_nat n else show_nat n)"

text \<open>Modelled from the spec: the two formats of \<open>formatETA\<close>, a whole number of
  seconds as hours, minutes and seconds, and as minutes and seconds.\<close>

definition hms :: "nat \<Rightarrow> string" where
  "hms s = show_nat (s div 3600) @ '':'' @ pad2 (s mod 3600 div 60) @ '':'' @ pad2 (s mod 60)"

definition ms :: "nat \<Rightarrow> string" where
  "ms s = show_nat (s div 60) @ '':'' @ pad2 (s mod 60)"

text \<open>
  Modelled from the spec: \<open>formatETA\<close> of the missing \<open>src/utils/eta.ts\<close>, with the
  four rules of the specification in their order.  The argument is absent or any number.
  A whole, non-negative number of seconds has the fields the specification's examples
  show.  Which whole number of seconds a fractional or a negative value stands for the
  specification does not say; that conversion is the parameter \<open>whole\<close>, and what is
  proved holds for every conversion.
\<close>

definition whole_seconds :: "(rat \<Rightarrow> nat) \<Rightarrow> rat \<Rightarrow> nat" where
  "whole_seconds whole v = (if 0 \<le> v \<and> v = of_int \<lfloor>v\<rfloor> then nat \<lfloor>v\<rfloor> else whole v)"

fun formatETA :: "(rat \<Rightarrow> nat) \<Rightarrow> js_number option \<Rightarrow> string" where
  "formatETA whole None = ''--:--''"
| "formatETA whole (Some NaN) = ''--:--''"
| "formatETA whole (Some PosInfinity) = ''--:--''"
| "formatETA whole (Some NegInfinity) = ''--:--''"
| "formatETA whole (Some (Finite v)) =
     (if v > 86400 then ''>1d''
      else if v \<ge> 3600 then hms (whole_seconds whole v)
      else ms (whole_seconds whole v))"

text \<open>One conversion: the whole seconds below the value.\<close>

definition floor_seconds :: "rat \<Rightarrow> nat" where
  "floor_seconds v = nat \<lfloor>v\<rfloor>"

text \<open>What the fields are, apart from how they are computed: \<open>unpadded n s\<close> says
  that \<open>s\<close> is the decimal numeral of \<open>n\<close> without leading zeros, \<open>two_digit n s\<close>
  that \<open>s\<close> is \<open>n\<close> in exactly two decimal digits.\<close>

definition unpadded :: "nat \<Rightarrow> string \<Rightarrow> bool" where
  "unpadded n s =
     (s \<noteq> [] \<and> list_all is_digit s \<and> nat_of_digits s = n
      \<and> (if hd s = CHR ''0'' then s = ''0'' else True))"

definition two_digit :: "nat \<Rightarrow> string \<Rightarrow> bool" where
  "two_digit n s = (length s = 2 \<and> list_all is_digit s \<and> nat_of_digits s = n)"

text \<open>
  Modelled from the spec: \<open>createETATracker\<close> and \<open>DEFAULT_ETA_BUFFER_SIZE\<close> of the
  missing \<open>src/utils/eta.ts\<close>.  The tracker owns a buffer bounded by its capacity;
  \<open>record\<close> appends a sample and evicts the oldest one when the capacity is exceeded.
  The time of a sample, which defaults to the current time, is an argument.
\<close>

definition DEFAULT_ETA_BUFFER_SIZE :: nat where
  "DEFAULT_ETA_BUFFER_SIZE = 10"

record ETATracker =
  bufferSize :: nat
  buffer :: "ETASample list"

definition createETATracker :: "nat option \<Rightarrow> ETATracker" where
  "createETATracker n =
     \<lparr>bufferSize = (case n of None \<Rightarrow> DEFAULT_ETA_BUFFER_SIZE | Some m \<Rightarrow> m), buffer = []\<rparr>"

definition tracker_record :: "ETATracker \<Rightarrow> rat \<Rightarrow> rat \<Rightarrow> ETATracker" where
  "tracker_record t v tm =
     (let b = buffer t @ [\<lparr>time = tm, value = v\<rparr>]
      in t\<lparr>buffer := (if length b > bufferSize t then tl b else b)\<rparr>)"

definition getBuffer :: "ETATracker \<Rightarrow> ETASample list" where
  "getBuffer t = buffer t"

definition reset :: "ETATracker \<Rightarrow> ETATracker" where
  "reset t = t\<lparr>buffer := []\<rparr>"

text \<open>Sequences of calls on a tracker: any calls, and recordings of given samples.\<close>

datatype tracker_call = Record rat rat | Reset

fun call :: "ETATracker \<Rightarrow> tracker_call \<Rightarrow> ETATracker" where
  "call t (Record v tm) = tracker_record t v tm"
| "call t Reset = reset t"

definition calls :: "ETATracker \<Rightarrow> tracker_call list \<Rightarrow> ETATracker" where
  "calls t cs = foldl call t cs"

definition record_all :: "ETATracker \<Rightarrow> ETASample list \<Rightarrow> ETATracker" where
  "record_all t samples = foldl (\<lambda>t s. tracker_record t (value s) (time s)) t samples"


section \<open>Lemmas about generateLabel\<close>

lemma ascii_uppercase_letter: "is_ascii c \<Longrightarrow> is_uppercase_letter c = is_upper c"
  by (auto simp: is_ascii_def is_uppercase_letter_def is_latin_upper_def)

lemma replace_capitals_eq:
  "list_all is_ascii s \<Longrightarrow> replace_capitals s = spec_space_capitals s"
  by (induction s) (simp_all add: spec_space_capitals_def ascii_uppercase_letter)

lemma space_runs_True:
  "space_runs True cs = takeWhile is_digit cs @ space_runs False (dropWhile is_digit cs)"
  by (induction cs) simp_all

lemma replace_numbers_eq: "replace_numbers s = space_runs False s"
  by (induction s rule: replace_numbers.induct) (simp_all add: space_runs_True)

lemma trim_rtrim: "trim s = rtrim (dropWhile is_space s)"
  by (simp add: trim_def rtrim_def)

lemma rtrim_append_spaces:
  assumes "list_all is_space r" and "w \<noteq> []" and "\<not> is_space (last w)"
  shows "rtrim (w @ r) = w"
proof -
  have "dropWhile is_space (rev r @ rev w) = dropWhile is_space (rev w)"
    using assms(1) by (intro dropWhile_append2) (simp add: list_all_iff)
  moreover have "dropWhile is_space (rev w) = rev w"
    using assms(2,3) by (cases "rev w") (auto simp: hd_rev [symmetric])
  ultimately show ?thesis by (simp add: rtrim_def)
qed

lemma rtrim_append_keep:
  assumes "\<not> list_all is_space r"
  shows "rtrim (x @ r) = x @ rtrim r"
proof -
  from assms obtain y where "y \<in> set (rev r)" "\<not> is_space y"
    by (auto simp: list_all_iff)
  then have "dropWhile is_space (rev r @ rev x) = dropWhile is_space (rev r) @ rev x"
    by (intro dropWhile_append1) auto
  then show ?thesis by (simp add: rtrim_def)
qed

lemma rtrim_Cons_nonspace:
  assumes "\<not> is_space h"
  shows "\<exists>t'. rtrim (h # t) = h # t'"
proof (cases "list_all is_space t")
  case True
  then have "rtrim ([h] @ t) = [h]"
    using assms by (intro rtrim_append_spaces) simp_all
  then show ?thesis by simp
next
  case False
  then have "rtrim ([h] @ t) = [h] @ rtrim t"
    by (rule rtrim_append_keep)
  then show ?thesis by simp
qed

lemma rtrim_all_spaces: "list_all is_space r \<Longrightarrow> rtrim r = []"
  by (simp add: rtrim_def list_all_iff)

lemma dropWhile_rtrim: "dropWhile is_space (rtrim r) = rtrim (dropWhile is_space r)"
proof (cases "list_all is_space r")
  case True
  then have dr: "dropWhile is_space r = []" by (simp add: list_all_iff)
  have "rtrim r = []" using True by (rule rtrim_all_spaces)
  moreover have "rtrim [] = []" by (simp add: rtrim_def)
  ultimately show ?thesis unfolding dr by simp
next
  case False
  define a b where "a = takeWhile is_space r" and "b = dropWhile is_space r"
  have r: "r = a @ b" by (simp add: a_def b_def)
  have a: "list_all is_space a"
    by (auto simp: a_def list_all_iff dest: set_takeWhileD)
  from False have "b \<noteq> []" by (auto simp: b_def list_all_iff)
  then obtain h t where b: "b = h # t" by (cases b) auto
  from \<open>b \<noteq> []\<close> have "\<not> is_space (hd b)"
    unfolding b_def by (rule hd_dropWhile)
  then have h: "\<not> is_space h" by (simp add: b)
  then have nb: "\<not> list_all is_space b" by (simp add: b)
  obtain t' where t': "rtrim b = h # t'"
    using rtrim_Cons_nonspace [OF h] b by auto
  have "rtrim r = a @ rtrim b"
    unfolding r using nb by (rule rtrim_append_keep)
  then have "dropWhile is_space (rtrim r) = dropWhile is_space (rtrim b)"
    using a by (simp add: list_all_iff)
  also have "\<dots> = rtrim b" using t' h by simp
  finally show ?thesis by (simp add: b_def)
qed

lemma replace_spaces_nonspace:
  "list_all (\<lambda>x. \<not> is_space x) w \<Longrightarrow> replace_spaces (w @ t) = w @ replace_spaces t"
  by (induction w) simp_all

lemma words_all_spaces: "list_all is_space r \<Longrightarrow> words r = []"
  by (induction r) simp_all

lemma words_nonempty: "\<not> list_all is_space r \<Longrightarrow> words r \<noteq> []"
  by (induction r) (auto split: if_splits)

lemma unwords_Cons: "ws \<noteq> [] \<Longrightarrow> unwords (w # ws) = w @ CHR '' '' # unwords ws"
  by (cases ws) simp_all

lemma collapse_trim_words: "replace_spaces (rtrim (dropWhile is_space s)) = unwords (words s)"
proof (induction s rule: words.induct)
  case 1
  show ?case by (simp add: rtrim_def)
next
  case (2 c cs)
  show ?case
  proof (cases "is_space c")
    case True
    with 2 show ?thesis by simp
  next
    case False
    define w r where "w = c # takeWhile (\<lambda>x. \<not> is_space x) cs"
      and "r = dropWhile (\<lambda>x. \<not> is_space x) cs"
    have split: "c # cs = w @ r" by (simp add: w_def r_def)
    have w: "list_all (\<lambda>x. \<not> is_space x) w"
      using False by (auto simp: w_def list_all_iff dest: set_takeWhileD)
    have wne: "w \<noteq> []" by (simp add: w_def)
    have lastw: "\<not> is_space (last w)"
      using w wne by (metis last_in_set list_all_iff)
    have IH: "replace_spaces (rtrim (dropWhile is_space r)) = unwords (words r)"
      using 2(2) False by (simp add: r_def)
    have ws: "words (c # cs) = w # words r"
      using False by (simp add: w_def r_def)
    have "dropWhile is_space (c # cs) = c # cs"
      using False by simp
    then have dw: "dropWhile is_space (c # cs) = w @ r"
      by (simp only: split)
    show ?thesis
    proof (cases "list_all is_space r")
      case True
      have "rtrim (w @ r) = w"
        using True wne lastw by (rule rtrim_append_spaces)
      moreover have "replace_spaces (w @ []) = w @ replace_spaces []"
        using w by (rule replace_spaces_nonspace)
      ultimately show ?thesis
        unfolding dw ws using True by (simp add: words_all_spaces)
    next
      case nsp: False
      then have "r \<noteq> []" by auto
      then obtain d r' where r: "r = d # r'" by (cases r) auto
      have d: "is_space d"
        using hd_dropWhile [of "\<lambda>x. \<not> is_space x" cs] \<open>r \<noteq> []\<close> r by (simp add: r_def)
      with nsp r have nsp': "\<not> list_all is_space r'" by simp
      have "rtrim (w @ r) = w @ rtrim r"
        using nsp by (rule rtrim_append_keep)
      moreover have "rtrim ([d] @ r') = [d] @ rtrim r'"
        using nsp' by (rule rtrim_append_keep)
      ultimately have "rtrim (w @ r) = w @ d # rtrim r'"
        using r by simp
      then have "replace_spaces (rtrim (w @ r)) = w @ replace_spaces (d # rtrim r')"
        using w by (simp add: replace_spaces_nonspace)
      also have "replace_spaces (d # rtrim r') = CHR '' '' # replace_spaces (rtrim (dropWhile is_space r'))"
        using d by (simp add: dropWhile_rtrim)
      also have "dropWhile is_space r' = dropWhile is_space r"
        using d r by simp
      finally have "replace_spaces (rtrim (w @ r)) = w @ CHR '' '' # unwords (words r)"
        using IH by simp
      moreover have "unwords (w # words r) = w @ CHR '' '' # unwords (words r)"
        using nsp by (intro unwords_Cons words_nonempty)
      ultimately show ?thesis unfolding dw ws by simp
    qed
  qed
qed

lemma words_hd_nonspace: "words s = w # ws \<Longrightarrow> w \<noteq> [] \<and> \<not> is_space (hd w)"
  by (induction s rule: words.induct) (auto split: if_splits)

lemma unwords_hd: "w \<noteq> [] \<Longrightarrow> unwords (w # ws) = hd w # tl (unwords (w # ws))"
  by (cases ws; cases w) simp_all

lemma line_terminator_space: "is_line_terminator c \<Longrightarrow> is_space c"
  by (auto simp: is_line_terminator_def is_space_def)

lemma replace_first_words: "replace_first (unwords (words s)) = capitalize_first (unwords (words s))"
proof (cases "words s")
  case Nil
  then show ?thesis by simp
next
  case (Cons w ws)
  then have w: "w \<noteq> []" "\<not> is_space (hd w)"
    using words_hd_nonspace by blast+
  from w(1) have "unwords (w # ws) = hd w # tl (unwords (w # ws))"
    by (rule unwords_hd)
  then obtain t where "unwords (w # ws) = hd w # t" by blast
  then show ?thesis
    using Cons w line_terminator_space by auto
qed


lemma of_char_char_of: "n < 256 \<Longrightarrow> (of_char (char_of n) :: nat) = n"
  by simp

lemma lower_props:
  assumes "is_lower c"
  shows "\<not> is_upper c" "\<not> is_digit c" "\<not> is_space c" "\<not> is_line_terminator c" "to_lower c = c"
  using assms
  by (auto simp: is_lower_def is_upper_def is_latin_upper_def is_digit_def is_space_def
      is_line_terminator_def to_lower_def)

lemma upper_props:
  assumes "is_upper c"
  shows "\<not> is_digit c" "\<not> is_space c" "is_lower (to_lower c)"
  using assms
  by (auto simp: is_lower_def is_upper_def is_digit_def is_space_def to_lower_def of_char_char_of)

lemma lower_upper_case: "is_lower c \<Longrightarrow> upper_case c = [to_upper c]"
  by (auto simp: is_lower_def upper_case_def)

lemma replace_numbers_no_digit: "list_all (\<lambda>c. \<not> is_digit c) s \<Longrightarrow> replace_numbers s = s"
  by (induction s) simp_all

lemma trim_id:
  assumes "s \<noteq> []" and "\<not> is_space (hd s)" and "\<not> is_space (last s)"
  shows "trim s = s"
proof -
  have "dropWhile is_space s = s"
    using assms(1,2) by (cases s) simp_all
  moreover have "dropWhile is_space (rev s) = rev s"
    using assms(1,3) by (cases "rev s") (auto simp: hd_rev [symmetric])
  ultimately show ?thesis by (simp add: trim_def)
qed

lemma replace_spaces_single_letters:
  "list_all (\<lambda>c. \<not> is_space c) ls \<Longrightarrow>
   replace_spaces (concat (map (\<lambda>c. [CHR '' '', c]) ls)) = concat (map (\<lambda>c. [CHR '' '', c]) ls)"
proof (induction ls)
  case Nil
  show ?case by simp
next
  case (Cons c ls)
  have sp: "is_space (CHR '' '')" by (simp add: is_space_def)
  from Cons show ?case by (simp add: sp)
qed


section \<open>Lemmas about the step tree\<close>

lemma preorder_unfold:
  "preorder node = node # (case children node of None \<Rightarrow> [] | Some ns \<Rightarrow> concat (map preorder ns))"
  by (cases node) simp

lemma flatten_loop_eq: "flatten_loop result nodes = result @ concat (map preorder nodes)"
proof (induction result nodes rule: flatten_loop.induct)
  case (1 result)
  show ?case by simp
next
  case (2 result node rest)
  show ?case
  proof (cases "children node")
    case None
    with 2 show ?thesis by (simp add: preorder_unfold [of node])
  next
    case (Some cs)
    with 2 show ?thesis by (simp add: preorder_unfold [of node])
  qed
qed

lemma leaf_loop_eq:
  "leaf_loop result nodes = result @ filter work_truthy (concat (map preorder nodes))"
proof (induction result nodes rule: leaf_loop.induct)
  case (1 result)
  show ?case by simp
next
  case (2 result node rest)
  show ?case
  proof (cases "children node")
    case None
    with 2 show ?thesis by (simp add: preorder_unfold [of node])
  next
    case (Some cs)
    with 2 show ?thesis by (simp add: preorder_unfold [of node])
  qed
qed

lemma entry_step:
  "(if js_typeof v = ''function'' then
        nodes @ [StepNode (JString (generateLabel k)) k (Some v) None ind]
      else if Array_isArray v \<and> array_length v = 2 then
        nodes @ [StepNode (array_get v 0) k (Some (array_get v 1)) None ind]
      else if js_typeof v = ''object'' \<and> v \<noteq> JNull then
          nodes @ [StepNode (JString (generateLabel k)) k None
                      (Some (parseStepsDef (own_properties v) (ind + 1))) ind]
      else nodes) = nodes @ entry_nodes ind k v"
proof (cases v)
  case (JArray xs)
  show ?thesis
  proof (cases "length xs = 2")
    case True
    then obtain l w where "xs = [l, w]"
      by (metis length_0_conv length_Suc_conv numeral_2_eq_2)
    with JArray show ?thesis by simp
  next
    case False
    then have "entry_nodes ind k (JArray xs) = [StepNode (JString (generateLabel k)) k None
        (Some (parseStepsDef (zip (map show_nat [0..<length xs]) xs) (ind + 1))) ind]"
      by (cases "(ind, k, JArray xs)" rule: entry_nodes.cases) auto
    with JArray False show ?thesis by simp
  qed
qed simp_all

lemma parse_loop_eq:
  "parse_loop nodes es ind = nodes @ concat (map (\<lambda>p. entry_nodes ind (fst p) (snd p)) es)"
proof (induction es arbitrary: nodes)
  case Nil
  show ?case by simp
next
  case (Cons e es)
  obtain k v where e: "e = (k, v)" by (cases e)
  have "parse_loop nodes ((k, v) # es) ind = parse_loop (nodes @ entry_nodes ind k v) es ind"
    by (subst parse_loop.simps, subst entry_step [symmetric]) simp
  then show ?case using Cons.IH e by simp
qed

lemma parseStepsDef_eq:
  "parseStepsDef def ind = concat (map (\<lambda>p. entry_nodes ind (fst p) (snd p)) (Object_entries def))"
  by (simp add: parseStepsDef.simps parse_loop_eq)

lemma set_Object_entries: "set (Object_entries ps) = set ps"
  by (auto simp: Object_entries_def)

lemma Object_entries_plain:
  assumes "list_all (\<lambda>p. \<not> is_array_index (fst p)) ps"
  shows "Object_entries ps = ps"
proof -
  have "filter (\<lambda>p. is_array_index (fst p)) ps = []"
    using assms by (simp add: list_all_iff filter_empty_conv)
  moreover have "filter (\<lambda>p. \<not> is_array_index (fst p)) ps = ps"
    using assms by (simp add: list_all_iff)
  ultimately show ?thesis by (simp add: Object_entries_def)
qed

lemma Object_entries_single: "Object_entries [p] = [p]"
  by (simp add: Object_entries_def)

lemma all_nodes_preorder: "all_nodes P node \<Longrightarrow> list_all P (preorder node)"
  by (induction node rule: preorder.induct)
     (auto simp: list_all_iff split: option.splits)

lemma work_callable_truthy: "work_callable node \<Longrightarrow> work_truthy node = work_populated node"
  by (cases "work node"; cases "the (work node)")
     (auto simp: work_callable_def work_truthy_def work_populated_def)
lemma length_entry_nodes: "length (entry_nodes ind k v) = (if is_primitive v then 0 else 1)"
  by (cases "(ind, k, v)" rule: entry_nodes.cases) simp_all

lemma key_entry_nodes: "map key (entry_nodes ind k v) = (if is_primitive v then [] else [k])"
  by (cases "(ind, k, v)" rule: entry_nodes.cases) simp_all

lemma keys_entries:
  "map key (concat (map (\<lambda>p. entry_nodes ind (fst p) (snd p)) es))
     = map fst (filter (\<lambda>p. \<not> is_primitive (snd p)) es)"
  by (induction es) (simp_all add: key_entry_nodes)

lemma entry_nodes_other_array:
  "length xs \<noteq> 2 \<Longrightarrow> entry_nodes ind k (JArray xs) =
     [StepNode (JString (generateLabel k)) k None
        (Some (parseStepsDef (zip (map show_nat [0..<length xs]) xs) (ind + 1))) ind]"
  by (cases "(ind, k, JArray xs)" rule: entry_nodes.cases) auto

lemma is_StepValue_cases:
  assumes "is_StepValue v"
  obtains (Fn) f where "v = JFunction f"
  | (Tuple) l g where "v = JArray [JString l, JFunction g]"
  | (Group) ps where "v = JObject ps" "is_StepsDef ps"
proof (cases v)
  case (JArray xs)
  with assms have t: "isLabelTuple (JArray xs)" by simp
  then have "length xs = 2" by (simp add: isLabelTuple_def)
  then obtain a b where xs: "xs = [a, b]"
    by (metis length_0_conv length_Suc_conv numeral_2_eq_2)
  with t have "js_typeof a = ''string''" "js_typeof b = ''function''"
    by (simp_all add: isLabelTuple_def)
  then obtain l g where "a = JString l" "b = JFunction g"
    by (cases a; cases b) simp_all
  with xs JArray show ?thesis by (intro Tuple) simp
next
  case (JObject ps)
  with assms show ?thesis by (intro Group) (simp_all add: is_StepsDef_def)
qed (use assms in \<open>simp_all add: Fn\<close>)

lemma typed_entry_nodes:
  assumes "is_StepValue v"
    and "\<And>ps. v = JObject ps \<Longrightarrow> list_all (all_nodes exactly_one) (parseStepsDef ps (ind + 1))"
  shows "list_all (all_nodes exactly_one) (entry_nodes ind k v)"
  using assms(1)
proof (cases rule: is_StepValue_cases)
  case (Fn f)
  then show ?thesis
    by (simp add: exactly_one_def work_populated_def children_populated_def)
next
  case (Tuple l g)
  then show ?thesis
    by (simp add: exactly_one_def work_populated_def children_populated_def)
next
  case (Group ps)
  with assms(2) show ?thesis
    by (simp add: exactly_one_def work_populated_def children_populated_def)
qed

section \<open>Lemmas about the ETA formatter and tracker\<close>

lemma digit_char_digit:
  assumes "d < 10"
  shows "is_digit (digit_char d)" and "digit_val (digit_char d) = d"
  using assms by (simp_all add: is_digit_def digit_val_def digit_char_def)

lemma digit_char_0: "digit_char 0 = CHR ''0''"
  by code_simp

lemma digit_char_eq_0: "d < 10 \<Longrightarrow> digit_char d = CHR ''0'' \<Longrightarrow> d = 0"
  using digit_char_digit(2) [of d] digit_char_digit(2) [of 0] by (simp add: digit_char_0)

lemma nat_of_digits_snoc: "nat_of_digits (s @ [c]) = 10 * nat_of_digits s + digit_val c"
  by (simp add: nat_of_digits_def)

lemma show_nat_digits:
  "show_nat n \<noteq> [] \<and> list_all is_digit (show_nat n) \<and> nat_of_digits (show_nat n) = n"
proof (induction n rule: show_nat.induct)
  case (1 n)
  show ?case
  proof (cases "n < 10")
    case True
    then show ?thesis
      by (simp add: show_nat.simps [of n] digit_char_digit nat_of_digits_def)
  next
    case False
    with 1 show ?thesis
      by (simp add: show_nat.simps [of n] digit_char_digit nat_of_digits_snoc)
  qed
qed

lemma show_nat_leading_zero: "hd (show_nat n) = CHR ''0'' \<Longrightarrow> n = 0"
proof (induction n rule: show_nat.induct)
  case (1 n)
  show ?case
  proof (cases "n < 10")
    case True
    with "1.prems" show ?thesis
      by (simp add: show_nat.simps [of n] digit_char_eq_0)
  next
    case False
    have "show_nat (n div 10) \<noteq> []"
      using show_nat_digits [of "n div 10"] by simp
    with False "1.prems" have "hd (show_nat (n div 10)) = CHR ''0''"
      by (simp add: show_nat.simps [of n])
    with False "1.IH" have "n div 10 = 0"
      by simp
    with False show ?thesis
      by simp
  qed
qed

lemma show_nat_unpadded: "unpadded n (show_nat n)"
proof -
  have "show_nat n = ''0''" if "hd (show_nat n) = CHR ''0''"
  proof -
    from that have "n = 0" by (rule show_nat_leading_zero)
    then show ?thesis
      by (simp add: show_nat.simps [of 0] digit_char_0)
  qed
  then show ?thesis
    using show_nat_digits [of n] by (auto simp: unpadded_def)
qed

lemma pad2_two_digit: "n < 100 \<Longrightarrow> two_digit n (pad2 n)"
proof (cases "n < 10")
  case True
  have z: "is_digit (CHR ''0'')" "digit_val (CHR ''0'') = 0"
    by (simp_all add: is_digit_def digit_val_def)
  from True show ?thesis
    by (simp add: two_digit_def pad2_def show_nat.simps [of n] digit_char_digit
        nat_of_digits_def z)
next
  case False
  assume "n < 100"
  then have d: "n div 10 < 10"
    by simp
  with False have "show_nat n = [digit_char (n div 10), digit_char (n mod 10)]"
    by (simp add: show_nat.simps [of n] show_nat.simps [of "n div 10"])
  with False d show ?thesis
    by (simp add: two_digit_def pad2_def digit_char_digit nat_of_digits_def)
qed

lemma hms_fields:
  "\<exists>h mm ss. hms s = h @ '':'' @ mm @ '':'' @ ss
      \<and> unpadded (s div 3600) h \<and> two_digit (s mod 3600 div 60) mm \<and> two_digit (s mod 60) ss"
proof -
  have "s mod 3600 div 60 < 100" "s mod 60 < 100"
    by (simp_all add: less_mult_imp_div_less order_less_trans [OF mod_less_divisor])
  then have "two_digit (s mod 3600 div 60) (pad2 (s mod 3600 div 60))"
    and "two_digit (s mod 60) (pad2 (s mod 60))"
    by (simp_all add: pad2_two_digit)
  with show_nat_unpadded [of "s div 3600"] show ?thesis
    unfolding hms_def by blast
qed

lemma ms_fields:
  "\<exists>m ss. ms s = m @ '':'' @ ss \<and> unpadded (s div 60) m \<and> two_digit (s mod 60) ss"
proof -
  have "s mod 60 < 100"
    by (simp add: order_less_trans [OF mod_less_divisor])
  then have "two_digit (s mod 60) (pad2 (s mod 60))"
    by (simp add: pad2_two_digit)
  with show_nat_unpadded [of "s div 60"] show ?thesis
    unfolding ms_def by blast
qed

lemma bufferSize_record [simp]: "bufferSize (tracker_record t v tm) = bufferSize t"
  by (simp add: tracker_record_def Let_def)

lemma length_record:
  "length (buffer t) \<le> bufferSize t \<Longrightarrow> length (buffer (tracker_record t v tm)) \<le> bufferSize t"
  by (auto simp: tracker_record_def Let_def)

lemma buffer_record:
  assumes "length (buffer t) \<le> bufferSize t"
  shows "buffer (tracker_record t (value s) (time s))
    = drop (Suc (length (buffer t)) - bufferSize t) (buffer t @ [s])"
proof -
  have s: "\<lparr>time = time s, value = value s\<rparr> = s" by simp
  show ?thesis
  proof (cases "Suc (length (buffer t)) > bufferSize t")
    case True
    with assms have "Suc (length (buffer t)) - bufferSize t = Suc 0" by simp
    moreover have "drop (Suc 0) (buffer t @ [s]) = tl (buffer t @ [s])"
      by (simp only: drop_Suc drop_0)
    moreover have "buffer (tracker_record t (value s) (time s)) = tl (buffer t @ [s])"
      using True by (simp add: tracker_record_def Let_def s)
    ultimately show ?thesis by (simp only:)
  next
    case False
    then show ?thesis
      by (simp add: tracker_record_def Let_def s)
  qed
qed

lemma record_all_buffer:
  "length (buffer t) \<le> bufferSize t \<Longrightarrow>
   bufferSize (record_all t samples) = bufferSize t \<and>
   buffer (record_all t samples)
     = drop (length (buffer t) + length samples - bufferSize t) (buffer t @ samples)"
proof (induction samples arbitrary: t)
  case Nil
  then show ?case by (simp add: record_all_def)
next
  case (Cons s ss)
  let ?t' = "tracker_record t (value s) (time s)"
  have len: "length (buffer ?t') \<le> bufferSize ?t'"
    using Cons.prems by (simp add: length_record)
  have b: "buffer ?t' = drop (Suc (length (buffer t)) - bufferSize t) (buffer t @ [s])"
    using Cons.prems by (rule buffer_record)
  have step: "record_all t (s # ss) = record_all ?t' ss"
    by (simp add: record_all_def)
  from Cons.IH [OF len]
  have IH: "bufferSize (record_all ?t' ss) = bufferSize t"
    "buffer (record_all ?t' ss) = drop (length (buffer ?t') + length ss - bufferSize t) (buffer ?t' @ ss)"
    by simp_all
  show ?case
  proof (cases "Suc (length (buffer t)) > bufferSize t")
    case True
    with Cons.prems have eq: "length (buffer t) = bufferSize t" by simp
    then have d1: "buffer ?t' = drop (Suc 0) (buffer t @ [s])" using b by simp
    have "drop (Suc 0) (buffer t @ [s]) @ ss = drop (Suc 0) ((buffer t @ [s]) @ ss)"
      by (cases "buffer t") simp_all
    then have b': "buffer ?t' @ ss = drop (Suc 0) (buffer t @ s # ss)"
      using d1 by simp
    have l': "length (buffer ?t') = bufferSize t"
      using d1 eq by simp
    have "buffer (record_all ?t' ss) = drop (length ss) (drop (Suc 0) (buffer t @ s # ss))"
      using IH(2) by (simp only: b' l') simp
    also have "\<dots> = drop (Suc (length ss)) (buffer t @ s # ss)"
      by (simp only: drop_drop) simp
    also have "Suc (length ss) = length (buffer t) + length (s # ss) - bufferSize t"
      using eq by simp
    finally show ?thesis
      unfolding step using IH(1) by (simp only:)
  next
    case False
    then have "buffer ?t' = buffer t @ [s]" using b by simp
    then show ?thesis
      unfolding step using IH False by simp
  qed
qed

lemma calls_invariant:
  "length (buffer t) \<le> bufferSize t \<Longrightarrow>
   bufferSize (calls t cs) = bufferSize t \<and> length (buffer (calls t cs)) \<le> bufferSize t"
proof (induction cs arbitrary: t)
  case Nil
  then show ?case by (simp add: calls_def)
next
  case (Cons c cs)
  have "length (buffer (call t c)) \<le> bufferSize (call t c) \<and> bufferSize (call t c) = bufferSize t"
    using Cons.prems by (cases c) (simp_all add: length_record reset_def)
  with Cons.IH [of "call t c"] show ?case
    by (simp add: calls_def)
qed


section \<open>The ETA formatter and tracker: claims C4 and C5\<close>

text \<open>
  Claim C4: for every input, absent or a number, and for every conversion of fractional
  and negative values to whole seconds, \<open>formatETA\<close> gives \<open>--:--\<close> for an absent, not-a-number or infinite
  argument; \<open>>1d\<close> for a value above 86400; for a value from 3600 on the hours unpadded,
  then minutes and seconds in two digits each, separated by colons; and for any other
  value the minutes unpadded (also 0) and the seconds in two digits.  The eight values of
  the tests are formatted as the tests say.
\<close>

theorem formatETA_rules:
  "formatETA whole None = ''--:--''
   \<and> formatETA whole (Some NaN) = ''--:--''
   \<and> formatETA whole (Some PosInfinity) = ''--:--''
   \<and> formatETA whole (Some NegInfinity) = ''--:--''
   \<and> (86400 < v \<longrightarrow> formatETA whole (Some (Finite v)) = ''>1d'')
   \<and> (3600 \<le> v \<and> v \<le> 86400 \<longrightarrow>
        (\<exists>h mm ss. formatETA whole (Some (Finite v)) = h @ '':'' @ mm @ '':'' @ ss
           \<and> unpadded (whole_seconds whole v div 3600) h
           \<and> two_digit (whole_seconds whole v mod 3600 div 60) mm
           \<and> two_digit (whole_seconds whole v mod 60) ss))
   \<and> (v < 3600 \<longrightarrow>
        (\<exists>m ss. formatETA whole (Some (Finite v)) = m @ '':'' @ ss
           \<and> unpadded (whole_seconds whole v div 60) m
           \<and> two_digit (whole_seconds whole v mod 60) ss))
   \<and> whole_seconds whole (of_nat n) = n
   \<and> formatETA whole (Some (Finite 45)) = ''0:45''
   \<and> formatETA whole (Some (Finite 90)) = ''1:30''
   \<and> formatETA whole (Some (Finite 125)) = ''2:05''
   \<and> formatETA whole (Some (Finite 3665)) = ''1:01:05''
   \<and> formatETA whole (Some (Finite 7200)) = ''2:00:00''
   \<and> formatETA whole (Some (Finite 86401)) = ''>1d''
   \<and> formatETA whole (Some (Finite 61)) = ''1:01''
   \<and> formatETA whole (Some (Finite 3601)) = ''1:00:01''"
proof (intro conjI impI)
  show "\<exists>h mm ss. formatETA whole (Some (Finite v)) = h @ '':'' @ mm @ '':'' @ ss
           \<and> unpadded (whole_seconds whole v div 3600) h
           \<and> two_digit (whole_seconds whole v mod 3600 div 60) mm
           \<and> two_digit (whole_seconds whole v mod 60) ss"
    if "3600 \<le> v \<and> v \<le> 86400"
    using that hms_fields [of "whole_seconds whole v"] by simp
  show "\<exists>m ss. formatETA whole (Some (Finite v)) = m @ '':'' @ ss
           \<and> unpadded (whole_seconds whole v div 60) m
           \<and> two_digit (whole_seconds whole v mod 60) ss"
    if "v < 3600"
    using that ms_fields [of "whole_seconds whole v"] by simp
  show "whole_seconds whole (of_nat n) = n"
    by (simp add: whole_seconds_def)
  have "ms 45 = ''0:45''" by code_simp
  then show "formatETA whole (Some (Finite 45)) = ''0:45''"
    by (simp add: whole_seconds_def)
  have "ms 90 = ''1:30''" by code_simp
  then show "formatETA whole (Some (Finite 90)) = ''1:30''"
    by (simp add: whole_seconds_def)
  have "ms 125 = ''2:05''" by code_simp
  then show "formatETA whole (Some (Finite 125)) = ''2:05''"
    by (simp add: whole_seconds_def)
  have "hms 3665 = ''1:01:05''" by code_simp
  then show "formatETA whole (Some (Finite 3665)) = ''1:01:05''"
    by (simp add: whole_seconds_def)
  have "hms 7200 = ''2:00:00''" by code_simp
  then show "formatETA whole (Some (Finite 7200)) = ''2:00:00''"
    by (simp add: whole_seconds_def)
  have "ms 61 = ''1:01''" by code_simp
  then show "formatETA whole (Some (Finite 61)) = ''1:01''"
    by (simp add: whole_seconds_def)
  have "hms 3601 = ''1:00:01''" by code_simp
  then show "formatETA whole (Some (Finite 3601)) = ''1:00:01''"
    by (simp add: whole_seconds_def)
qed simp_all

theorem formatETA_rules_witness:
  "(86400 :: rat) < 100000 \<and> formatETA floor_seconds (Some (Finite 100000)) = ''>1d''
   \<and> (3600 :: rat) \<le> 3665 \<and> (3665 :: rat) \<le> 86400
   \<and> (\<exists>h mm ss. formatETA floor_seconds (Some (Finite 3665)) = h @ '':'' @ mm @ '':'' @ ss
         \<and> unpadded (whole_seconds floor_seconds 3665 div 3600) h
         \<and> two_digit (whole_seconds floor_seconds 3665 mod 3600 div 60) mm
         \<and> two_digit (whole_seconds floor_seconds 3665 mod 60) ss)
   \<and> (7199 / 2 :: rat) < 3600
   \<and> (\<exists>m ss. formatETA floor_seconds (Some (Finite (7199 / 2))) = m @ '':'' @ ss
         \<and> unpadded (whole_seconds floor_seconds (7199 / 2) div 60) m
         \<and> two_digit (whole_seconds floor_seconds (7199 / 2) mod 60) ss)"
proof -
  have a: "(86400 :: rat) < 100000" by simp
  have b: "(3600 :: rat) \<le> 3665 \<and> (3665 :: rat) \<le> 86400" by simp
  have d: "(7199 / 2 :: rat) < 3600" by simp
  from a formatETA_rules [of floor_seconds 100000]
  have r2: "formatETA floor_seconds (Some (Finite 100000)) = ''>1d''"
    by blast
  from b formatETA_rules [of floor_seconds 3665]
  have r3: "\<exists>h mm ss. formatETA floor_seconds (Some (Finite 3665)) = h @ '':'' @ mm @ '':'' @ ss
         \<and> unpadded (whole_seconds floor_seconds 3665 div 3600) h
         \<and> two_digit (whole_seconds floor_seconds 3665 mod 3600 div 60) mm
         \<and> two_digit (whole_seconds floor_seconds 3665 mod 60) ss"
    by blast
  from d formatETA_rules [of floor_seconds "7199 / 2"]
  have r4: "\<exists>m ss. formatETA floor_seconds (Some (Finite (7199 / 2))) = m @ '':'' @ ss
         \<and> unpadded (whole_seconds floor_seconds (7199 / 2) div 60) m
         \<and> two_digit (whole_seconds floor_seconds (7199 / 2) mod 60) ss"
    by blast
  from a b d r2 r3 r4 show ?thesis
    by (intro conjI) simp_all
qed

text \<open>
  Claim C5: a tracker of capacity \<open>n\<close> that has recorded more than \<open>n\<close> samples
  holds exactly the \<open>n\<close> most recent ones, oldest first; after any sequence of calls
  the buffer is no longer than the capacity, which no call changes; and the default
  capacity is the constant 10.
\<close>

theorem tracker_keeps_most_recent:
  "(n < length samples \<longrightarrow>
      getBuffer (record_all (createETATracker (Some n)) samples) = drop (length samples - n) samples
      \<and> length (getBuffer (record_all (createETATracker (Some n)) samples)) = n)
   \<and> length (getBuffer (calls (createETATracker m) cs)) \<le> bufferSize (createETATracker m)
   \<and> bufferSize (calls (createETATracker m) cs) = bufferSize (createETATracker m)
   \<and> DEFAULT_ETA_BUFFER_SIZE = 10
   \<and> bufferSize (createETATracker None) = 10"
proof (intro conjI impI)
  assume n: "n < length samples"
  have "length (buffer (createETATracker (Some n))) \<le> bufferSize (createETATracker (Some n))"
    by (simp add: createETATracker_def)
  from record_all_buffer [OF this, of samples]
  show b: "getBuffer (record_all (createETATracker (Some n)) samples) = drop (length samples - n) samples"
    by (simp add: getBuffer_def createETATracker_def)
  show "length (getBuffer (record_all (createETATracker (Some n)) samples)) = n"
    using n by (simp add: b)
next
  have "length (buffer (createETATracker m)) \<le> bufferSize (createETATracker m)"
    by (simp add: createETATracker_def)
  from calls_invariant [OF this, of cs]
  show "length (getBuffer (calls (createETATracker m) cs)) \<le> bufferSize (createETATracker m)"
    and "bufferSize (calls (createETATracker m) cs) = bufferSize (createETATracker m)"
    by (simp_all add: getBuffer_def)
next
  show "DEFAULT_ETA_BUFFER_SIZE = 10"
    by (simp add: DEFAULT_ETA_BUFFER_SIZE_def)
  show "bufferSize (createETATracker None) = 10"
    by (simp add: createETATracker_def DEFAULT_ETA_BUFFER_SIZE_def)
qed

theorem tracker_keeps_most_recent_witness:
  "3 < length [\<lparr>time = 1, value = 0\<rparr>, \<lparr>time = 2, value = 10\<rparr>,
               \<lparr>time = 3, value = 20\<rparr>, \<lparr>time = 4, value = 30\<rparr>]
   \<and> getBuffer (record_all (createETATracker (Some 3))
        [\<lparr>time = 1, value = 0\<rparr>, \<lparr>time = 2, value = 10\<rparr>,
         \<lparr>time = 3, value = 20\<rparr>, \<lparr>time = 4, value = 30\<rparr>])
     = [\<lparr>time = 2, value = 10\<rparr>, \<lparr>time = 3, value = 20\<rparr>, \<lparr>time = 4, value = 30\<rparr>]"
  using tracker_keeps_most_recent
    [of 3 "[\<lparr>time = 1, value = 0\<rparr>, \<lparr>time = 2, value = 10\<rparr>,
            \<lparr>time = 3, value = 20\<rparr>, \<lparr>time = 4, value = 30\<rparr>]" None "[]"]
  by simp


section \<open>The parser: claims C2, C3 and C7\<close>

text \<open>
  Claim C2, as stated, has the parser skip every entry whose value is neither a function,
  nor a pair of a string and a function, nor a non-array object.  It does not skip an
  array of one element (parsed as a group over its indices), nor a pair whose first
  element is not a string, nor a pair whose second element is not a function (parsed as
  leaves).
\<close>

theorem parseStepsDef_unrecognized_counterexample:
  "\<not> isLabelTuple (JArray [JFunction 0]) \<and> \<not> isStepsDef (JArray [JFunction 0])
   \<and> js_typeof (JArray [JFunction 0]) \<noteq> ''function''
   \<and> parseStepsDef [(''a'', JArray [JFunction 0])] 0
       = [StepNode (JString ''A'') ''a'' None
            (Some [StepNode (JString ''0'') ''0'' (Some (JFunction 0)) None 1]) 0]
   \<and> \<not> isLabelTuple (JArray [JNumber (Finite 1), JFunction 0])
   \<and> \<not> isStepsDef (JArray [JNumber (Finite 1), JFunction 0])
   \<and> js_typeof (JArray [JNumber (Finite 1), JFunction 0]) \<noteq> ''function''
   \<and> parseStepsDef [(''b'', JArray [JNumber (Finite 1), JFunction 0])] 0
       = [StepNode (JNumber (Finite 1)) ''b'' (Some (JFunction 0)) None 0]
   \<and> \<not> isLabelTuple (JArray [JString ''Load'', JNull])
   \<and> \<not> isStepsDef (JArray [JString ''Load'', JNull])
   \<and> js_typeof (JArray [JString ''Load'', JNull]) \<noteq> ''function''
   \<and> parseStepsDef [(''c'', JArray [JString ''Load'', JNull])] 0
       = [StepNode (JString ''Load'') ''c'' (Some JNull) None 0]"
  by code_simp

text \<open>
  Claim C2, amended: the parser produces no node for an entry exactly when its value is a
  primitive (neither a function, nor an array, nor an object), and one node for every
  other entry.  An array of two elements always gives a leaf, with the first element as
  label and the second as work, whatever they are; an array of any other length gives a
  group whose children are parsed from its elements under their indices.
\<close>

theorem parseStepsDef_skips_primitives:
  "map key (parseStepsDef def ind)
     = map fst (filter (\<lambda>p. \<not> is_primitive (snd p)) (Object_entries def))
   \<and> (is_primitive v \<longrightarrow> parseStepsDef [(k, v)] ind = [])
   \<and> parseStepsDef [(k, JArray [l, w])] ind = [StepNode l k (Some w) None ind]
   \<and> (length xs \<noteq> 2 \<longrightarrow> parseStepsDef [(k, JArray xs)] ind =
        [StepNode (JString (generateLabel k)) k None
           (Some (parseStepsDef (zip (map show_nat [0..<length xs]) xs) (ind + 1))) ind])"
proof (intro conjI impI)
  show "map key (parseStepsDef def ind)
     = map fst (filter (\<lambda>p. \<not> is_primitive (snd p)) (Object_entries def))"
    by (simp only: parseStepsDef_eq keys_entries)
  show "parseStepsDef [(k, v)] ind = []" if "is_primitive v"
    using that length_entry_nodes [of ind k v]
    by (simp add: parseStepsDef_eq Object_entries_single)
  show "parseStepsDef [(k, JArray [l, w])] ind = [StepNode l k (Some w) None ind]"
    by (simp add: parseStepsDef_eq Object_entries_single)
  show "parseStepsDef [(k, JArray xs)] ind =
        [StepNode (JString (generateLabel k)) k None
           (Some (parseStepsDef (zip (map show_nat [0..<length xs]) xs) (ind + 1))) ind]"
    if "length xs \<noteq> 2"
    using that by (simp add: parseStepsDef_eq Object_entries_single entry_nodes_other_array)
qed

theorem parseStepsDef_skips_primitives_witness:
  "is_primitive (JString ''later'') \<and> parseStepsDef [(''todo'', JString ''later'')] 0 = []
   \<and> length [JFunction 0] \<noteq> 2
   \<and> parseStepsDef [(''a'', JArray [JFunction 0])] 0 =
        [StepNode (JString (generateLabel ''a'')) ''a'' None
           (Some (parseStepsDef (zip (map show_nat [0..<length [JFunction 0]]) [JFunction 0]) (0 + 1))) 0]"
  using parseStepsDef_skips_primitives [of "[]" 0 "JString ''later''" "''todo''" JNull JNull "[JFunction 0]"]
    parseStepsDef_skips_primitives [of "[]" 0 "JString ''later''" "''a''" JNull JNull "[JFunction 0]"]
  by simp

text \<open>
  Claim C3, as stated, has the nodes come in the insertion order of the definition.  A
  definition that declares the keys \<open>b\<close>, \<open>2\<close> and \<open>1\<close> in this order (a function, a
  pair and a nested definition) is parsed in the order \<open>1\<close>, \<open>2\<close>, \<open>b\<close>.
\<close>

theorem parseStepsDef_order_counterexample:
  "map key (parseStepsDef
     [(''b'', JFunction 0), (''2'', JArray [JString ''x'', JFunction 1]),
      (''1'', JObject [(''c'', JFunction 2)])] 0)
   \<noteq> [''b'', ''2'', ''1'']"
  by code_simp

text \<open>
  Claim C3, amended: the parser processes the entries in the order of
  \<open>Object.entries\<close>, that is the keys that are array indices first, in ascending numeric
  order, and then the other keys in insertion order (so in insertion order when no key is
  an array index), and dispatches on the shape: a function gives a leaf with the generated
  label, a pair gives a leaf with the given label, a nested definition gives a group with
  the generated label whose children are the parse one level deeper.  For a function, a
  pair and a nested definition declared in this order under keys that are not array
  indices, the result is the three nodes in this order, the nested one with children and
  no work, the other two with work and no children.
\<close>

theorem parseStepsDef_entries_order:
  "parseStepsDef def ind = concat (map (\<lambda>p. entry_nodes ind (fst p) (snd p)) (Object_entries def))
   \<and> Object_entries def =
        sort_key (\<lambda>p. nat_of_digits (fst p)) (filter (\<lambda>p. is_array_index (fst p)) def)
        @ filter (\<lambda>p. \<not> is_array_index (fst p)) def
   \<and> (list_all (\<lambda>p. \<not> is_array_index (fst p)) def \<longrightarrow> Object_entries def = def)
   \<and> (\<not> is_array_index k1 \<and> \<not> is_array_index k2 \<and> \<not> is_array_index k3 \<longrightarrow>
        parseStepsDef [(k1, JFunction f), (k2, JArray [JString l, JFunction g]), (k3, JObject ps)] ind
        = [StepNode (JString (generateLabel k1)) k1 (Some (JFunction f)) None ind,
           StepNode (JString l) k2 (Some (JFunction g)) None ind,
           StepNode (JString (generateLabel k3)) k3 None (Some (parseStepsDef ps (ind + 1))) ind])"
proof (intro conjI impI)
  show "parseStepsDef def ind = concat (map (\<lambda>p. entry_nodes ind (fst p) (snd p)) (Object_entries def))"
    by (rule parseStepsDef_eq)
  show "Object_entries def =
        sort_key (\<lambda>p. nat_of_digits (fst p)) (filter (\<lambda>p. is_array_index (fst p)) def)
        @ filter (\<lambda>p. \<not> is_array_index (fst p)) def"
    by (rule Object_entries_def)
  show "Object_entries def = def" if "list_all (\<lambda>p. \<not> is_array_index (fst p)) def"
    using that by (rule Object_entries_plain)
  assume k: "\<not> is_array_index k1 \<and> \<not> is_array_index k2 \<and> \<not> is_array_index k3"
  let ?d = "[(k1, JFunction f), (k2, JArray [JString l, JFunction g]), (k3, JObject ps)]"
  have "Object_entries ?d = ?d"
    using k by (intro Object_entries_plain) simp
  then show "parseStepsDef ?d ind
        = [StepNode (JString (generateLabel k1)) k1 (Some (JFunction f)) None ind,
           StepNode (JString l) k2 (Some (JFunction g)) None ind,
           StepNode (JString (generateLabel k3)) k3 None (Some (parseStepsDef ps (ind + 1))) ind]"
    by (simp add: parseStepsDef_eq)
qed

theorem parseStepsDef_entries_order_witness:
  "list_all (\<lambda>p. \<not> is_array_index (fst p))
      [(''loadModules'', JFunction 0), (''parse'', JArray [JString ''Parsing'', JFunction 1]),
       (''build'', JObject [(''emit'', JFunction 2)])]
   \<and> Object_entries
      [(''loadModules'', JFunction 0), (''parse'', JArray [JString ''Parsing'', JFunction 1]),
       (''build'', JObject [(''emit'', JFunction 2)])]
     = [(''loadModules'', JFunction 0), (''parse'', JArray [JString ''Parsing'', JFunction 1]),
       (''build'', JObject [(''emit'', JFunction 2)])]
   \<and> \<not> is_array_index ''loadModules'' \<and> \<not> is_array_index ''parse'' \<and> \<not> is_array_index ''build''
   \<and> parseStepsDef
      [(''loadModules'', JFunction 0), (''parse'', JArray [JString ''Parsing'', JFunction 1]),
       (''build'', JObject [(''emit'', JFunction 2)])] 0
     = [StepNode (JString (generateLabel ''loadModules'')) ''loadModules'' (Some (JFunction 0)) None 0,
        StepNode (JString ''Parsing'') ''parse'' (Some (JFunction 1)) None 0,
        StepNode (JString (generateLabel ''build'')) ''build'' None
          (Some (parseStepsDef [(''emit'', JFunction 2)] (0 + 1))) 0]"
proof -
  have k: "\<not> is_array_index ''loadModules'' \<and> \<not> is_array_index ''parse'' \<and> \<not> is_array_index ''build''"
    by code_simp
  then have h: "list_all (\<lambda>p. \<not> is_array_index (fst p))
      [(''loadModules'', JFunction 0), (''parse'', JArray [JString ''Parsing'', JFunction 1]),
       (''build'', JObject [(''emit'', JFunction 2)])]"
    by simp
  show ?thesis
    using k h parseStepsDef_entries_order
      [of "[(''loadModules'', JFunction 0), (''parse'', JArray [JString ''Parsing'', JFunction 1]),
       (''build'', JObject [(''emit'', JFunction 2)])]" 0 "''loadModules''" "''parse''" "''build''"
       0 "''Parsing''" 1 "[(''emit'', JFunction 2)]"]
    by blast
qed

text \<open>
  Claim C7: for every steps definition (every value a function, a pair of a string and a
  function, or a nested steps definition) and every starting indent, every node of the
  parsed tree, at every depth, has exactly one of \<open>work\<close> and \<open>children\<close> populated.
\<close>

theorem parseStepsDef_work_xor_children:
  "is_StepsDef def \<Longrightarrow> list_all (all_nodes exactly_one) (parseStepsDef def ind)"
proof (induction "entries_weight def" arbitrary: def ind rule: less_induct)
  case less
  have "list_all (all_nodes exactly_one) (entry_nodes ind (fst p) (snd p))"
    if p: "p \<in> set def" for p
  proof (rule typed_entry_nodes)
    show "is_StepValue (snd p)"
      using less.prems p by (simp add: is_StepsDef_def list_all_iff)
  next
    fix ps
    assume v: "snd p = JObject ps"
    have "Suc (weight (snd p)) \<in> set (map (\<lambda>p. Suc (weight (snd p))) def)"
      using p by auto
    then have "Suc (weight (snd p)) \<le> entries_weight def"
      unfolding entries_weight_def by (intro member_le_sum_list) simp_all
    then have "entries_weight ps < entries_weight def"
      using v by (simp add: entries_weight_def o_def)
    moreover have "is_StepValue (snd p)"
      using less.prems p by (simp add: is_StepsDef_def list_all_iff)
    then have "is_StepValue (JObject ps)"
      by (simp only: v)
    then have "is_StepsDef ps"
      by (simp add: is_StepsDef_def)
    ultimately show "list_all (all_nodes exactly_one) (parseStepsDef ps (ind + 1))"
      by (rule less.hyps)
  qed
  then show ?case
    by (simp add: parseStepsDef_eq list_all_iff set_Object_entries)
qed

theorem parseStepsDef_work_xor_children_witness:
  "is_StepsDef [(''loadModules'', JFunction 0), (''parse'', JArray [JString ''Parsing'', JFunction 1]),
       (''build'', JObject [(''emit'', JFunction 2), (''pack'', JObject [])])]
   \<and> list_all (all_nodes exactly_one)
       (parseStepsDef [(''loadModules'', JFunction 0), (''parse'', JArray [JString ''Parsing'', JFunction 1]),
       (''build'', JObject [(''emit'', JFunction 2), (''pack'', JObject [])])] 0)"
proof -
  have h: "is_StepsDef [(''loadModules'', JFunction 0), (''parse'', JArray [JString ''Parsing'', JFunction 1]),
       (''build'', JObject [(''emit'', JFunction 2), (''pack'', JObject [])])]"
    by code_simp
  from h parseStepsDef_work_xor_children [OF h, of 0] show ?thesis
    by (rule conjI)
qed


section \<open>The labels: claims C6 and C10\<close>

text \<open>
  Claim C6, as stated, has \<open>generateLabel\<close> put a space before every uppercase letter.
  The regular expression is \<open>[A-Z]\<close>: an uppercase letter beyond ASCII gets no space,
  though it is lowercased.  The name \<open>load\<close>, U+00C9, \<open>cole\<close> gives the one word
  \<open>Load\<close>, U+00E9, \<open>cole\<close>, where the steps of the claim give two words.
\<close>

theorem generateLabel_uppercase_counterexample:
  "generateLabel (''load'' @ [CHR 0xC9] @ ''cole'') = ''Load'' @ [CHR 0xE9] @ ''cole''
   \<and> spec_generateLabel (''load'' @ [CHR 0xC9] @ ''cole'') = ''Load '' @ [CHR 0xE9] @ ''cole''
   \<and> generateLabel (''load'' @ [CHR 0xC9] @ ''cole'')
       \<noteq> spec_generateLabel (''load'' @ [CHR 0xC9] @ ''cole'')"
  by code_simp

text \<open>
  Claim C6, amended: for every name of ASCII characters, \<open>generateLabel\<close> puts a space
  before every uppercase letter and before every run of digits, lowercases everything,
  trims and collapses the white space, and uppercases the first character; the three
  examples hold exactly.
\<close>

theorem generateLabel_composition:
  "(list_all is_ascii s \<longrightarrow> generateLabel s = spec_generateLabel s)
   \<and> generateLabel ''loadModules'' = ''Load modules''
   \<and> generateLabel ''parseMarkdown'' = ''Parse markdown''
   \<and> generateLabel ''initBoardStateGenerator'' = ''Init board state generator''"
proof (intro conjI impI)
  show "generateLabel s = spec_generateLabel s" if "list_all is_ascii s"
    using that
    by (simp add: generateLabel_def spec_generateLabel_def replace_capitals_eq replace_numbers_eq
        toLowerCase_def trim_rtrim collapse_trim_words replace_first_words)
  show "generateLabel ''loadModules'' = ''Load modules''"
    by code_simp
  show "generateLabel ''parseMarkdown'' = ''Parse markdown''"
    by code_simp
  show "generateLabel ''initBoardStateGenerator'' = ''Init board state generator''"
    by code_simp
qed

theorem generateLabel_composition_witness:
  "list_all is_ascii ''step10Then2''
   \<and> generateLabel ''step10Then2'' = spec_generateLabel ''step10Then2''"
proof -
  have h: "list_all is_ascii ''step10Then2''"
    by code_simp
  with generateLabel_composition [of "''step10Then2''"] show ?thesis
    by blast
qed

text \<open>
  Claim C10: a run of uppercase letters behind a lowercase word is split into single
  lowercase letters, each a word of its own; \<open>parseHTML\<close> becomes
  \<open>Parse h t m l\<close>, and the empty name gives the empty label.
\<close>

theorem generateLabel_uppercase_run:
  "(w \<noteq> [] \<and> list_all is_lower w \<and> list_all is_upper us
      \<longrightarrow> generateLabel (w @ us)
          = to_upper (hd w) # tl w @ concat (map (\<lambda>c. [CHR '' '', to_lower c]) us))
   \<and> generateLabel ''parseHTML'' = ''Parse h t m l''
   \<and> generateLabel [] = []"
proof (intro conjI impI)
  assume a: "w \<noteq> [] \<and> list_all is_lower w \<and> list_all is_upper us"
  then have w: "w \<noteq> []" "list_all is_lower w" and us: "list_all is_upper us" by simp_all
  define ls where "ls = map to_lower us"
  define t where "t = w @ concat (map (\<lambda>c. [CHR '' '', c]) ls)"
  have lsl: "list_all is_lower ls"
    using us by (simp add: ls_def list_all_iff upper_props)
  have c1: "replace_capitals w = w"
    using w(2) by (induction w) (simp_all add: lower_props)
  have c2: "replace_capitals us = concat (map (\<lambda>c. [CHR '' '', c]) us)"
    using us by (induction us) simp_all
  have c3: "replace_capitals (w @ us) = replace_capitals w @ replace_capitals us"
    by (induction w) simp_all
  have caps: "replace_capitals (w @ us) = w @ concat (map (\<lambda>c. [CHR '' '', c]) us)"
    by (simp add: c1 c2 c3)
  have sp: "\<not> is_digit (CHR '' '')" by (simp add: is_digit_def)
  have "list_all (\<lambda>c. \<not> is_digit c) (w @ concat (map (\<lambda>c. [CHR '' '', c]) us))"
    using w(2) us by (auto simp: list_all_iff lower_props upper_props sp)
  then have nums: "replace_numbers (replace_capitals (w @ us)) = w @ concat (map (\<lambda>c. [CHR '' '', c]) us)"
    by (simp add: caps replace_numbers_no_digit)
  have lsp: "to_lower (CHR '' '') = CHR '' ''"
    by (simp add: to_lower_def is_upper_def is_latin_upper_def)
  have "map to_lower w = w"
    using w(2) by (induction w) (simp_all add: lower_props)
  moreover have "map to_lower (concat (map (\<lambda>c. [CHR '' '', c]) xs))
      = concat (map (\<lambda>c. [CHR '' '', c]) (map to_lower xs))" for xs
    by (induction xs) (simp_all add: lsp)
  then have "map to_lower (concat (map (\<lambda>c. [CHR '' '', c]) us)) = concat (map (\<lambda>c. [CHR '' '', c]) ls)"
    by (simp only: ls_def)
  ultimately have low: "toLowerCase (replace_numbers (replace_capitals (w @ us))) = t"
    by (simp add: nums toLowerCase_def t_def)
  have tne: "t \<noteq> []" using w(1) by (simp add: t_def)
  have hd_t: "hd t = hd w" using w(1) by (simp add: t_def)
  have "is_lower (last t)"
  proof (cases ls rule: rev_cases)
    case Nil
    then show ?thesis using w by (simp add: t_def list_all_iff)
  next
    case (snoc ys y)
    then show ?thesis using lsl by (simp add: t_def)
  qed
  moreover have "is_lower (hd w)" using w by (cases w) simp_all
  ultimately have tr: "trim t = t"
    using tne hd_t by (intro trim_id) (simp_all add: lower_props)
  have "list_all (\<lambda>x. \<not> is_space x) w"
    using w(2) by (simp add: list_all_iff lower_props)
  then have "replace_spaces t = w @ replace_spaces (concat (map (\<lambda>c. [CHR '' '', c]) ls))"
    unfolding t_def by (rule replace_spaces_nonspace)
  moreover have "list_all (\<lambda>c. \<not> is_space c) ls"
    using lsl by (simp add: list_all_iff lower_props)
  ultimately have col: "replace_spaces t = t"
    by (simp add: replace_spaces_single_letters t_def)
  obtain h r where hr: "w = h # r" using w(1) by (cases w) auto
  then have "is_lower h" using w(2) by simp
  then have first: "replace_first t = to_upper h # r @ concat (map (\<lambda>c. [CHR '' '', c]) ls)"
    by (simp add: t_def hr lower_props lower_upper_case)
  have ls: "concat (map (\<lambda>c. [CHR '' '', c]) ls) = concat (map (\<lambda>c. [CHR '' '', to_lower c]) us)"
    by (simp add: ls_def o_def)
  have "generateLabel (w @ us) = replace_first (replace_spaces (trim t))"
    by (simp only: generateLabel_def low)
  also have "\<dots> = to_upper h # r @ concat (map (\<lambda>c. [CHR '' '', c]) ls)"
    by (simp only: tr col first)
  finally show "generateLabel (w @ us)
          = to_upper (hd w) # tl w @ concat (map (\<lambda>c. [CHR '' '', to_lower c]) us)"
    by (simp add: ls hr)
next
  show "generateLabel ''parseHTML'' = ''Parse h t m l''"
    by code_simp
  show "generateLabel [] = []"
    by code_simp
qed

theorem generateLabel_uppercase_run_witness:
  "''parse'' \<noteq> [] \<and> list_all is_lower ''parse'' \<and> list_all is_upper ''HTML''
   \<and> generateLabel (''parse'' @ ''HTML'')
       = to_upper (hd ''parse'') # tl ''parse'' @ concat (map (\<lambda>c. [CHR '' '', to_lower c]) ''HTML'')"
proof -
  have h: "''parse'' \<noteq> [] \<and> list_all is_lower ''parse'' \<and> list_all is_upper ''HTML''"
    by code_simp
  with generateLabel_uppercase_run [of "''parse''" "''HTML''"] show ?thesis
    by blast
qed


section \<open>The traversals: claims C8 and C9\<close>

text \<open>
  Claim C8: \<open>flattenStepNodes\<close> returns the nodes in depth-first pre-order, groups
  included; a group of two leaves gives the group, the first child, the second child.
\<close>

theorem flattenStepNodes_preorder:
  "flattenStepNodes nodes = concat (map preorder nodes)
   \<and> (children g = Some [c1, c2] \<and> children c1 = None \<and> children c2 = None
        \<longrightarrow> flattenStepNodes [g] = [g, c1, c2])"
  by (simp add: flattenStepNodes_def flatten_loop_eq preorder_unfold [of g]
      preorder_unfold [of c1] preorder_unfold [of c2])

theorem flattenStepNodes_preorder_witness:
  "children (StepNode (JString ''Setup'') ''setup'' None
       (Some [StepNode (JString ''Load'') ''load'' (Some (JFunction 0)) None 1,
              StepNode (JString ''Parse'') ''parse'' (Some (JFunction 1)) None 1]) 0)
     = Some [StepNode (JString ''Load'') ''load'' (Some (JFunction 0)) None 1,
             StepNode (JString ''Parse'') ''parse'' (Some (JFunction 1)) None 1]
   \<and> children (StepNode (JString ''Load'') ''load'' (Some (JFunction 0)) None 1) = None
   \<and> children (StepNode (JString ''Parse'') ''parse'' (Some (JFunction 1)) None 1) = None
   \<and> flattenStepNodes
        [StepNode (JString ''Setup'') ''setup'' None
           (Some [StepNode (JString ''Load'') ''load'' (Some (JFunction 0)) None 1,
                  StepNode (JString ''Parse'') ''parse'' (Some (JFunction 1)) None 1]) 0]
      = [StepNode (JString ''Setup'') ''setup'' None
           (Some [StepNode (JString ''Load'') ''load'' (Some (JFunction 0)) None 1,
                  StepNode (JString ''Parse'') ''parse'' (Some (JFunction 1)) None 1]) 0,
         StepNode (JString ''Load'') ''load'' (Some (JFunction 0)) None 1,
         StepNode (JString ''Parse'') ''parse'' (Some (JFunction 1)) None 1]"
  using flattenStepNodes_preorder
    [of "[]" "StepNode (JString ''Setup'') ''setup'' None
           (Some [StepNode (JString ''Load'') ''load'' (Some (JFunction 0)) None 1,
                  StepNode (JString ''Parse'') ''parse'' (Some (JFunction 1)) None 1]) 0"
        "StepNode (JString ''Load'') ''load'' (Some (JFunction 0)) None 1"
        "StepNode (JString ''Parse'') ''parse'' (Some (JFunction 1)) None 1"]
  by simp

text \<open>
  Claim C9: on step nodes (the work, where set, is a function) \<open>getLeafNodes\<close>
  returns the nodes of \<open>flattenStepNodes\<close> whose work is populated, in the same order;
  a group of two leaves gives the two children.
\<close>

theorem getLeafNodes_filter_flatten:
  "(list_all (all_nodes work_callable) nodes
      \<longrightarrow> getLeafNodes nodes = filter work_populated (flattenStepNodes nodes))
   \<and> (work g = None \<and> children g = Some [c1, c2]
        \<and> work c1 = Some (JFunction f1) \<and> children c1 = None
        \<and> work c2 = Some (JFunction f2) \<and> children c2 = None
        \<longrightarrow> getLeafNodes [g] = [c1, c2])"
proof (intro conjI impI)
  assume typed: "list_all (all_nodes work_callable) nodes"
  have "list_all work_callable (concat (map preorder nodes))"
    using typed by (induction nodes) (simp_all add: all_nodes_preorder)
  then have "filter work_truthy (concat (map preorder nodes))
      = filter work_populated (concat (map preorder nodes))"
    by (intro filter_cong refl work_callable_truthy) (auto simp: list_all_iff)
  then show "getLeafNodes nodes = filter work_populated (flattenStepNodes nodes)"
    by (simp add: getLeafNodes_def leaf_loop_eq flattenStepNodes_def flatten_loop_eq)
next
  assume "work g = None \<and> children g = Some [c1, c2]
        \<and> work c1 = Some (JFunction f1) \<and> children c1 = None
        \<and> work c2 = Some (JFunction f2) \<and> children c2 = None"
  then show "getLeafNodes [g] = [c1, c2]"
    by (simp add: getLeafNodes_def leaf_loop_eq preorder_unfold [of g]
      preorder_unfold [of c1] preorder_unfold [of c2] work_truthy_def)
qed

theorem getLeafNodes_filter_flatten_witness:
  "list_all (all_nodes work_callable)
     [StepNode (JString ''Setup'') ''setup'' None
        (Some [StepNode (JString ''Load'') ''load'' (Some (JFunction 0)) None 1,
               StepNode (JString ''Parse'') ''parse'' (Some (JFunction 1)) None 1]) 0]
   \<and> getLeafNodes
        [StepNode (JString ''Setup'') ''setup'' None
           (Some [StepNode (JString ''Load'') ''load'' (Some (JFunction 0)) None 1,
                  StepNode (JString ''Parse'') ''parse'' (Some (JFunction 1)) None 1]) 0]
      = filter work_populated (flattenStepNodes
        [StepNode (JString ''Setup'') ''setup'' None
           (Some [StepNode (JString ''Load'') ''load'' (Some (JFunction 0)) None 1,
                  StepNode (JString ''Parse'') ''parse'' (Some (JFunction 1)) None 1]) 0])
   \<and> getLeafNodes
        [StepNode (JString ''Setup'') ''setup'' None
           (Some [StepNode (JString ''Load'') ''load'' (Some (JFunction 0)) None 1,
                  StepNode (JString ''Parse'') ''parse'' (Some (JFunction 1)) None 1]) 0]
      = [StepNode (JString ''Load'') ''load'' (Some (JFunction 0)) None 1,
         StepNode (JString ''Parse'') ''parse'' (Some (JFunction 1)) None 1]"
proof -
  let ?c1 = "StepNode (JString ''Load'') ''load'' (Some (JFunction 0)) None 1"
  let ?c2 = "StepNode (JString ''Parse'') ''parse'' (Some (JFunction 1)) None 1"
  let ?g = "StepNode (JString ''Setup'') ''setup'' None (Some [?c1, ?c2]) 0"
  note inst = getLeafNodes_filter_flatten [of "[?g]" ?g ?c1 ?c2 0 1]
  have h: "list_all (all_nodes work_callable) [?g]"
    by (simp add: work_callable_def)
  with inst have a: "getLeafNodes [?g] = filter work_populated (flattenStepNodes [?g])"
    by blast
  from inst have b: "getLeafNodes [?g] = [?c1, ?c2]"
    by simp
  from h a b show ?thesis
    by (intro conjI)
qed

end
